theory Spec2Isabelle
  imports Complex_Main "HOL-Library.Sublist" "HOL-Library.Multiset"
begin

section \<open>Python primitives used by the sources\<close>

text \<open>
  The two modules verified here are \<^verbatim>\<open>aimakerspace/text_utils.py\<close> (the two text
  splitters) and \<^verbatim>\<open>aimakerspace/vectordatabase.py\<close> (the in-memory vector store).
  Python strings are lists of characters; the splitters only compare characters for
  equality and count them, so \<open>string\<close> stands for \<^verbatim>\<open>str\<close>. Python integers are
  \<open>int\<close>. Exceptions are values of the type \<open>error\<close>.
\<close>

datatype error = AssertionError | ValueError

text \<open>
  A bound of a slice \<^verbatim>\<open>xs[a:b]\<close> on a sequence of length \<open>n\<close>: a negative bound counts
  from the end, and every bound is clamped to \<open>0..n\<close>.
\<close>

definition slice_bound :: "int \<Rightarrow> int \<Rightarrow> nat" where
  "slice_bound n i = (if i < 0 then nat (max 0 (n + i)) else nat (min n i))"

definition py_slice :: "'a list \<Rightarrow> int \<Rightarrow> int \<Rightarrow> 'a list" where
  "py_slice xs a b =
     (let n = int (length xs); lo = slice_bound n a; hi = slice_bound n b
      in take (hi - lo) (drop lo xs))"

text \<open>
  \<^verbatim>\<open>range(i, n, step)\<close> for a positive step. A negative step from \<open>0\<close> to a length
  gives the empty range as well; the step \<open>0\<close>, where Python raises, is handled by the
  caller.
\<close>

function py_range :: "int \<Rightarrow> int \<Rightarrow> int \<Rightarrow> int list" where
  "py_range i n step = (if 0 < step \<and> i < n then i # py_range (i + step) n step else [])"
  by pat_completeness auto
termination
  by (relation "measure (\<lambda>(i, n, step). nat (n - i))") auto

declare py_range.simps [simp del]

text \<open>\<^verbatim>\<open>sep.join(parts)\<close>.\<close>

fun str_join :: "string \<Rightarrow> string list \<Rightarrow> string" where
  "str_join sep [] = []"
| "str_join sep [p] = p"
| "str_join sep (p # q # ps) = p @ sep @ str_join sep (q # ps)"

text \<open>
  \<^verbatim>\<open>text.split(sep)\<close> for a non-empty separator: the text is cut at the occurrences of
  \<open>sep\<close>, found left to right without overlap, and an empty text gives one empty part.
  (The source never calls \<^verbatim>\<open>split\<close> with the empty separator; here the text then
  stays in one part.)
\<close>

function str_split :: "string \<Rightarrow> string \<Rightarrow> string list" where
  "str_split sep [] = [[]]"
| "str_split sep (c # cs) =
     (if sep \<noteq> [] \<and> prefix sep (c # cs)
      then [] # str_split sep (drop (length sep) (c # cs))
      else (case str_split sep cs of
              [] \<Rightarrow> [[c]]
            | p # ps \<Rightarrow> (c # p) # ps))"
  by pat_completeness auto
termination
  by (relation "measure (\<lambda>(sep, t). length t)") (auto simp: neq_Nil_conv)

declare str_split.simps(2) [simp del]

text \<open>
  A \<^verbatim>\<open>dict\<close> keeps its keys in the order of their first insertion:
  \<^verbatim>\<open>d[k] = v\<close> replaces the value in place when \<open>k\<close> is present and appends the
  entry otherwise. \<^verbatim>\<open>d.get(k)\<close> is \<open>map_of d k\<close>.
\<close>

fun dict_set :: "('k \<times> 'v) list \<Rightarrow> 'k \<Rightarrow> 'v \<Rightarrow> ('k \<times> 'v) list" where
  "dict_set [] k v = [(k, v)]"
| "dict_set (p # ps) k v = (if fst p = k then (k, v) # ps else p # dict_set ps k v)"

text \<open>
  Scores are floating-point numbers. A finite float is taken as the real number it
  stands for (rounding is not modelled); \<open>NaN\<close> is the value of \<open>0.0 / 0.0\<close>. Every
  comparison with \<open>NaN\<close> is false.
\<close>

datatype pyfloat = NaN | Fin real












section \<open>text\_utils.py: CharacterTextSplitter\<close>

record CharacterTextSplitter =
  chunk_size :: int
  chunk_overlap :: int

definition CharacterTextSplitter_init :: "int \<Rightarrow> int \<Rightarrow> error + CharacterTextSplitter" where
  "CharacterTextSplitter_init cs co =
     (if cs > co then Inr \<lparr>chunk_size = cs, chunk_overlap = co\<rparr> else Inl AssertionError)"

text \<open>
  \<^verbatim>\<open>for i in range(0, len(text), chunk_size - chunk_overlap):
      chunks.append(text[i : i + chunk_size])\<close>
  \<^verbatim>\<open>range\<close> raises \<^verbatim>\<open>ValueError\<close> for the step \<open>0\<close>.
\<close>

definition CharacterTextSplitter_split :: "CharacterTextSplitter \<Rightarrow> string \<Rightarrow> error + string list" where
  "CharacterTextSplitter_split sp text =
     (let step = chunk_size sp - chunk_overlap sp
      in if step = 0 then Inl ValueError
         else Inr (map (\<lambda>i. py_slice text i (i + chunk_size sp))
                       (py_range 0 (int (length text)) step)))"


section \<open>text\_utils.py: RecursiveTextSplitter\<close>

record RecursiveTextSplitter = CharacterTextSplitter +
  separators :: "string list"

definition NL :: char where
  "NL = CHR 0x0A"

definition default_separators :: "string list" where
  "default_separators = [[NL, NL], [NL], ''. '', '' '', '''']"

text \<open>
  \<^verbatim>\<open>self.separators = separators or [...]\<close>: the default list replaces \<^verbatim>\<open>None\<close> and
  the empty list alike.
\<close>

definition RecursiveTextSplitter_init ::
  "int \<Rightarrow> int \<Rightarrow> string list option \<Rightarrow> error + RecursiveTextSplitter" where
  "RecursiveTextSplitter_init cs co seps =
     (if cs > co
      then Inr \<lparr>chunk_size = cs, chunk_overlap = co,
                separators = (case seps of None \<Rightarrow> default_separators
                              | Some ss \<Rightarrow> if ss = [] then default_separators else ss)\<rparr>
      else Inl AssertionError)"

definition split_text_with_separator :: "string \<Rightarrow> string \<Rightarrow> string list" where
  "split_text_with_separator text separator =
     (if separator \<noteq> [] then str_split separator text else map (\<lambda>c. [c]) text)"

text \<open>
  The inner loop of \<^verbatim>\<open>_merge_splits\<close> over \<^verbatim>\<open>reversed(current_chunk)\<close>: the
  arguments are the items still to visit, \<^verbatim>\<open>overlap_length\<close> and
  \<^verbatim>\<open>overlap_chunks\<close>.
\<close>

fun overlap_loop :: "int \<Rightarrow> string \<Rightarrow> string list \<Rightarrow> int \<Rightarrow> string list \<Rightarrow> string list" where
  "overlap_loop co separator [] overlap_length overlap_chunks = overlap_chunks"
| "overlap_loop co separator (item # items) overlap_length overlap_chunks =
     (let overlap_length' = overlap_length + int (length item) + int (length separator)
      in if overlap_length' > co then overlap_chunks
         else overlap_loop co separator items overlap_length' (item # overlap_chunks))"

text \<open>
  The state of the outer loop of \<^verbatim>\<open>_merge_splits\<close> is
  \<open>(chunks, current_chunk, current_length)\<close>; \<open>merge_step\<close> is one iteration.
\<close>

type_synonym merge_state = "string list \<times> string list \<times> int"

fun merge_step :: "int \<Rightarrow> int \<Rightarrow> string \<Rightarrow> string \<Rightarrow> merge_state \<Rightarrow> merge_state" where
  "merge_step cs co separator split (chunks, current_chunk, current_length) =
     (let split_len = int (length split);
          (chunks1, current_chunk1, current_length1) =
            (if current_length + split_len + int (length separator) > cs \<and> current_chunk \<noteq> []
             then (let overlap_chunks = overlap_loop co separator (rev current_chunk) 0 []
                   in (chunks @ [str_join separator current_chunk],
                       overlap_chunks,
                       (\<Sum>c\<leftarrow>overlap_chunks. int (length c))
                         + int (length separator) * max 0 (int (length overlap_chunks) - 1)))
             else (chunks, current_chunk, current_length));
          current_chunk2 = current_chunk1 @ [split]
      in (chunks1, current_chunk2,
          current_length1 + split_len
            + (if current_chunk2 \<noteq> [] then int (length separator) else 0)))"

definition merge_splits :: "int \<Rightarrow> int \<Rightarrow> string list \<Rightarrow> string \<Rightarrow> string list" where
  "merge_splits cs co splits separator =
     (case fold (merge_step cs co separator) splits ([], [], 0) of
        (chunks, current_chunk, current_length) \<Rightarrow>
          if current_chunk \<noteq> [] then chunks @ [str_join separator current_chunk] else chunks)"

text \<open>\<^verbatim>\<open>max(len(s) for s in splits) if splits else 0\<close>.\<close>

definition max_split_len :: "string list \<Rightarrow> int" where
  "max_split_len splits =
     (case splits of [] \<Rightarrow> 0 | s # ss \<Rightarrow> fold (\<lambda>t m. max m (int (length t))) ss (int (length s)))"

text \<open>
  \<^verbatim>\<open>split\<close>. Every path through the body of the loop over the separators returns, so
  only the first separator of the list is tried at each level (\<open>i = 0\<close>), and
  \<open>i = len(separators) - 1\<close> says that no other separator is left. The sub-splitter is
  built with the same sizes and the rest of the list, which is not empty there; the
  recursion is on the separator list.
\<close>

fun split_with :: "int \<Rightarrow> int \<Rightarrow> string list \<Rightarrow> string \<Rightarrow> string list" where
  "split_with cs co [] text = [text]"
| "split_with cs co (separator # rest) text =
     (let splits = split_text_with_separator text separator
      in if max_split_len splits \<le> cs then merge_splits cs co splits separator
         else if rest = [] then merge_splits cs co splits separator
         else merge_splits cs co
                (concat (map (\<lambda>split. if int (length split) \<le> cs then [split]
                                        else split_with cs co rest split) splits))
                separator)"

definition RecursiveTextSplitter_split :: "RecursiveTextSplitter \<Rightarrow> string \<Rightarrow> string list" where
  "RecursiveTextSplitter_split sp text =
     split_with (chunk_size sp) (chunk_overlap sp) (separators sp) text"


text \<open>
  Runs of pieces. A list of pairs \<open>(k, w)\<close> describes the chunks of one merge: \<open>w\<close> is
  the list of pieces joined into the chunk and its first \<open>k\<close> pieces are repeated from
  the end of the chunk before it. \<open>overlapping\<close> says that every chunk repeats a suffix
  of the pieces of the previous chunk (nothing for the first chunk) and then has at
  least one new piece; \<open>new_pieces\<close> lists the pieces left when the repeated ones are
  dropped.
\<close>

fun overlapping :: "'a list \<Rightarrow> (nat \<times> 'a list) list \<Rightarrow> bool" where
  "overlapping prev [] = True"
| "overlapping prev ((k, w) # kws) = (k < length w \<and> suffix (take k w) prev \<and> overlapping w kws)"

definition new_pieces :: "(nat \<times> 'a list) list \<Rightarrow> 'a list" where
  "new_pieces kws = concat (map (\<lambda>(k, w). drop k w) kws)"

text \<open>
  \<open>built cs seps inp chunks\<close>: the chunks are put together from the pieces of the input
  and from nothing else. The input is split at the first separator; a piece longer than
  \<open>cs\<close> may be replaced by chunks built from it with the remaining separators, every
  other piece stays whole; each chunk is a run of these pieces, joined with the
  separator; the runs follow each other as \<open>overlapping\<close> says, and dropping the
  repeated pieces leaves every piece once, in the order of the input. With no separator
  left the input is the only chunk.
\<close>

inductive built :: "int \<Rightarrow> string list \<Rightarrow> string \<Rightarrow> string list \<Rightarrow> bool" for cs :: int where
  built_whole: "built cs [] inp [inp]"
| built_level:
    "list_all2 (\<lambda>p g. g = [p] \<or> int (length p) > cs \<and> built cs rest p g)
        (split_text_with_separator inp sep) gs \<Longrightarrow>
     overlapping [] kws \<Longrightarrow> new_pieces kws = concat gs \<Longrightarrow>
     built cs (sep # rest) inp (map (\<lambda>(k, w). str_join sep w) kws)"



text \<open>
  \<open>cut_at S text kept\<close>: \<open>kept\<close> is \<open>text\<close> with some occurrences of separators of
  \<open>S\<close> taken out, and nothing else changed.
\<close>

inductive cut_at :: "string set \<Rightarrow> string \<Rightarrow> string \<Rightarrow> bool" for S :: "string set" where
  cut_Nil: "cut_at S [] []"
| cut_Keep: "cut_at S xs ys \<Longrightarrow> cut_at S (c # xs) (c # ys)"
| cut_Drop: "s \<in> S \<Longrightarrow> cut_at S xs ys \<Longrightarrow> cut_at S (s @ xs) ys"


text \<open>
  The invariant of the outer loop of \<^verbatim>\<open>_merge_splits\<close> when there is no overlap: the
  closed chunks are within the chunk size, and so is the running chunk, whose joined
  length plus one separator is \<^verbatim>\<open>current_length\<close>.
\<close>

definition merge_inv :: "int \<Rightarrow> string \<Rightarrow> merge_state \<Rightarrow> bool" where
  "merge_inv cs sep st =
     (case st of (chunks, cur, cl) \<Rightarrow>
        (\<forall>c\<in>set chunks. int (length c) \<le> cs) \<and>
        (sep = [] \<longrightarrow> (\<forall>s\<in>set cur. s \<noteq> [])) \<and>
        (if cur = [] then cl = 0
         else cl = int (length (str_join sep cur)) + int (length sep) \<and>
              int (length (str_join sep cur)) \<le> cs))"


section \<open>vectordatabase.py: VectorDatabase\<close>

text \<open>
  The store holds two dictionaries keyed by text. Vectors are values of any type \<open>'v\<close>;
  a metadata dictionary maps names to values. The embedding model, used only by the
  text-based convenience methods, is left out.
\<close>

type_synonym metadata = "(string \<times> string) list"

record 'v VectorDatabase =
  vectors :: "(string \<times> 'v) list"
  metadata :: "(string \<times> metadata) list"

definition VectorDatabase_init :: "'v VectorDatabase" where
  "VectorDatabase_init = \<lparr>vectors = [], metadata = []\<rparr>"

definition VectorDatabase_insert :: "'v VectorDatabase \<Rightarrow> string \<Rightarrow> 'v \<Rightarrow> metadata option \<Rightarrow> 'v VectorDatabase" where
  "VectorDatabase_insert db key vector md =
     (let db1 = db\<lparr>vectors := dict_set (vectors db) key vector\<rparr>
      in case md of
           None \<Rightarrow> db1
         | Some m \<Rightarrow> db1\<lparr>metadata := dict_set (metadata db1) key m\<rparr>)"

text \<open>
  \<^verbatim>\<open>self.vectors.get(key, None)\<close>: the result and the store after the call.
  \<^verbatim>\<open>get\<close> does not call the default factory of a \<^verbatim>\<open>defaultdict\<close>.
\<close>

definition retrieve_from_key :: "'v VectorDatabase \<Rightarrow> string \<Rightarrow> 'v option \<times> 'v VectorDatabase" where
  "retrieve_from_key db key = (map_of (vectors db) key, db)"

text \<open>
  \<^verbatim>\<open>cosine_similarity\<close> on one-dimensional arrays. \<^verbatim>\<open>np.dot\<close> raises
  \<^verbatim>\<open>ValueError\<close> for arrays of different lengths. The division is a division of
  floats: when the product of the norms is zero one of the vectors is the zero vector,
  the dot product is zero as well, and the quotient is \<open>NaN\<close>; nothing is raised.
\<close>

definition np_dot :: "real list \<Rightarrow> real list \<Rightarrow> real" where
  "np_dot a b = (\<Sum>(x, y)\<leftarrow>zip a b. x * y)"

definition linalg_norm :: "real list \<Rightarrow> real" where
  "linalg_norm a = sqrt (\<Sum>x\<leftarrow>a. x * x)"

definition cosine_similarity :: "real list \<Rightarrow> real list \<Rightarrow> error + pyfloat" where
  "cosine_similarity vector_a vector_b =
     (if length vector_a \<noteq> length vector_b then Inl ValueError
      else (let dot_product = np_dot vector_a vector_b;
                norm_a = linalg_norm vector_a;
                norm_b = linalg_norm vector_b
            in if norm_a * norm_b = 0 then Inr NaN
               else Inr (Fin (dot_product / (norm_a * norm_b)))))"









section \<open>Facts about the dictionary primitives\<close>

lemma map_of_dict_set: "map_of (dict_set d k v) = (map_of d)(k \<mapsto> v)"
  by (induction d) (auto simp: fun_eq_iff)

text \<open>A new key goes to the end of the dictionary; an old key keeps its place.\<close>

lemma dict_set_new_key: "k \<notin> fst ` set d \<Longrightarrow> dict_set d k v = d @ [(k, v)]"
  by (induction d) auto

lemma dict_set_old_key: "k \<in> fst ` set d \<Longrightarrow> map fst (dict_set d k v) = map fst d"
  by (induction d) auto

lemma keys_dict_set: "fst ` set (dict_set d k v) = {k} \<union> fst ` set d"
  by (induction d) auto

lemma distinct_dict_set: "distinct (map fst d) \<Longrightarrow> distinct (map fst (dict_set d k v))"
  by (induction d) (auto simp: keys_dict_set)

lemma vectors_insert:
  "vectors (VectorDatabase_insert db key v md) = dict_set (vectors db) key v"
  by (cases md) (simp_all add: VectorDatabase_insert_def)

lemma metadata_insert:
  "metadata (VectorDatabase_insert db key v md) =
     (case md of None \<Rightarrow> metadata db | Some m \<Rightarrow> dict_set (metadata db) key m)"
  by (cases md) (simp_all add: VectorDatabase_insert_def)


section \<open>The vector store: insert and retrieve\<close>

text \<open>
  Claim C4, as amended. \<open>insert\<close> always replaces the vector of its key: a lookup after
  \<open>insert(key, v)\<close> gives \<open>v\<close>, and after a second \<open>insert(key, v2)\<close> it gives
  \<open>v2\<close>. The metadata of the key is replaced when the call passes metadata; a call
  without metadata leaves the metadata dictionary as it was.
\<close>

theorem C4_insert_overwrites:
  "fst (retrieve_from_key (VectorDatabase_insert db key v md) key) = Some v \<and>
   fst (retrieve_from_key
          (VectorDatabase_insert (VectorDatabase_insert db key v md) key v2 md2) key) = Some v2 \<and>
   map_of (metadata (VectorDatabase_insert db key v (Some m))) key = Some m \<and>
   metadata (VectorDatabase_insert db key v None) = metadata db"
  by (simp add: vectors_insert metadata_insert map_of_dict_set retrieve_from_key_def)

text \<open>
  Claim C4 as stated says that an insert on an existing key overwrites the prior
  metadata for every optional metadata. Here the key \<open>a\<close> is inserted with metadata and
  then again without: the metadata of the first insert is still stored.
\<close>

theorem C4_metadata_kept_counterexample:
  "map_of (metadata
      (VectorDatabase_insert
         (VectorDatabase_insert VectorDatabase_init ''a'' [1::real] (Some [(''source'', ''x'')]))
         ''a'' [2] None)) ''a''
   = Some [(''source'', ''x'')]"
  by (simp add: VectorDatabase_insert_def VectorDatabase_init_def)

text \<open>
  Claim C7. For a key that the store does not hold, \<open>retrieve_from_key\<close> returns
  \<open>None\<close>, raises nothing, and leaves the store as it was: no entry is created for the
  key.
\<close>

theorem C7_retrieve_absent:
  "key \<notin> fst ` set (vectors db) \<Longrightarrow> retrieve_from_key db key = (None, db)"
  by (simp add: retrieve_from_key_def map_of_eq_None_iff)

theorem C7_retrieve_absent_witness:
  "''b'' \<notin> fst ` set (vectors (VectorDatabase_insert VectorDatabase_init ''a'' [1::real] None)) \<and>
   retrieve_from_key (VectorDatabase_insert VectorDatabase_init ''a'' [1::real] None) ''b''
     = (None, VectorDatabase_insert VectorDatabase_init ''a'' [1::real] None)"
proof -
  have h: "''b'' \<notin> fst ` set (vectors (VectorDatabase_insert VectorDatabase_init ''a'' [1::real] None))"
    by (simp add: vectors_insert VectorDatabase_init_def)
  from C7_retrieve_absent [OF h] h show ?thesis by simp
qed

text \<open>
  Claim C9. An insert under the key \<open>k1\<close> changes neither the vector nor the metadata
  stored under any other key \<open>k2\<close>.
\<close>

theorem C9_insert_frame:
  "k1 \<noteq> k2 \<Longrightarrow>
     map_of (vectors (VectorDatabase_insert db k1 v m)) k2 = map_of (vectors db) k2 \<and>
     map_of (metadata (VectorDatabase_insert db k1 v m)) k2 = map_of (metadata db) k2 \<and>
     fst (retrieve_from_key (VectorDatabase_insert db k1 v m) k2) = fst (retrieve_from_key db k2)"
  by (cases m) (simp_all add: vectors_insert metadata_insert map_of_dict_set retrieve_from_key_def)

theorem C9_insert_frame_witness:
  "''b'' \<noteq> ''a'' \<and>
   map_of (vectors (VectorDatabase_insert
                      \<lparr>vectors = [(''a'', [1::real])], metadata = [(''a'', [(''source'', ''x'')])]\<rparr>
                      ''b'' [2] (Some [(''source'', ''y'')]))) ''a''
     = Some [1] \<and>
   map_of (metadata (VectorDatabase_insert
                      \<lparr>vectors = [(''a'', [1::real])], metadata = [(''a'', [(''source'', ''x'')])]\<rparr>
                      ''b'' [2] (Some [(''source'', ''y'')]))) ''a''
     = Some [(''source'', ''x'')]"
proof -
  have h: "''b'' \<noteq> ''a''" by simp
  from C9_insert_frame [OF h,
      of "\<lparr>vectors = [(''a'', [1::real])], metadata = [(''a'', [(''source'', ''x'')])]\<rparr>"
         "[2]" "Some [(''source'', ''y'')]"]
  show ?thesis by simp
qed


section \<open>The splitters: construction\<close>

text \<open>
  Claim C6. Constructing either splitter with \<open>chunk_overlap \<ge> chunk_size\<close> fails at
  once, for every such pair: the assertion of the constructor raises (the error the
  specification calls a configuration error), and no splitter with clamped sizes is
  returned.
\<close>

theorem C6_init_fails_fast:
  "co \<ge> cs \<Longrightarrow>
     CharacterTextSplitter_init cs co = Inl AssertionError \<and>
     RecursiveTextSplitter_init cs co seps = Inl AssertionError"
  by (simp add: CharacterTextSplitter_init_def RecursiveTextSplitter_init_def)

theorem C6_init_fails_fast_witness:
  "(5::int) \<ge> 3 \<and>
     CharacterTextSplitter_init 3 5 = Inl AssertionError \<and>
     RecursiveTextSplitter_init 3 5 None = Inl AssertionError"
proof -
  have h: "(5::int) \<ge> 3" by simp
  from C6_init_fails_fast [OF h, of None] h show ?thesis by simp
qed


section \<open>Sorting keys that are totally ordered\<close>


















section \<open>The vector store: search\<close>






text \<open>
  The dictionary of vectors lists the keys in the order of their first insertion, so
  the scores are listed in insertion order.
\<close>

lemma insert_new_key_last:
  "key \<notin> fst ` set (vectors db) \<Longrightarrow>
     vectors (VectorDatabase_insert db key v md) = vectors db @ [(key, v)]"
  by (simp add: vectors_insert dict_set_new_key)

lemma insert_old_key_order:
  "key \<in> fst ` set (vectors db) \<Longrightarrow>
     map fst (vectors (VectorDatabase_insert db key v md)) = map fst (vectors db)"
  by (simp add: vectors_insert dict_set_old_key)

text \<open>
  The default measure gives a number for two vectors of the same length that are not
  zero vectors.
\<close>

lemma linalg_norm_zero: "linalg_norm a = 0 \<longleftrightarrow> (\<forall>x\<in>set a. x = 0)"
proof -
  have "sum_list (map (\<lambda>x. x * x) a) = 0 \<longleftrightarrow> (\<forall>y\<in>set (map (\<lambda>x. x * x) a). y = 0)"
    by (rule sum_list_nonneg_eq_0_iff) auto
  then have "(\<Sum>x\<leftarrow>a. x * x) = 0 \<longleftrightarrow> (\<forall>x\<in>set a. x = 0)"
    by simp
  then show ?thesis by (simp add: linalg_norm_def)
qed

lemma cosine_similarity_number:
  assumes "length a = length b" and "\<exists>x\<in>set a. x \<noteq> 0" and "\<exists>x\<in>set b. x \<noteq> 0"
  shows "\<exists>x. cosine_similarity a b = Inr (Fin x)"
  using assms by (auto simp: cosine_similarity_def Let_def linalg_norm_zero)





section \<open>The fixed-window splitter\<close>

lemma py_slice_window:
  assumes "0 \<le> i" "0 \<le> c"
  shows "py_slice xs i (i + c) = take (nat c) (drop (nat i) xs)"
proof (cases "i \<le> int (length xs)")
  case True
  have "take (nat (min (int (length xs)) (i + c)) - nat i) (drop (nat i) xs)
        = take (nat c) (drop (nat i) xs)"
  proof (cases "i + c \<le> int (length xs)")
    case True
    with assms have "nat (min (int (length xs)) (i + c)) - nat i = nat c"
      by (simp add: min_def)
    then show ?thesis by simp
  next
    case False
    with assms True have "nat (min (int (length xs)) (i + c)) - nat i = length (drop (nat i) xs)"
      and "length (drop (nat i) xs) \<le> nat c"
      by (simp_all add: min_def)
    then show ?thesis by simp
  qed
  with assms True show ?thesis
    by (simp add: py_slice_def slice_bound_def Let_def min_def)
next
  case False
  with assms show ?thesis
    by (simp add: py_slice_def slice_bound_def Let_def min_def)
qed

lemma py_range_length:
  "0 < step \<Longrightarrow> length (py_range i n step) = nat ((n - i + step - 1) div step)"
proof (induction i n step rule: py_range.induct)
  case (1 i n step)
  show ?case
  proof (cases "i < n")
    case True
    define a where "a = n - (i + step) + step - 1"
    have "(a + step) div step = a div step + 1"
      using 1(2) by simp
    moreover have "n - i + step - 1 = a + step"
      by (simp add: a_def)
    ultimately have "(n - i + step - 1) div step = (n - (i + step) + step - 1) div step + 1"
      unfolding a_def by metis
    moreover have "0 \<le> (n - (i + step) + step - 1) div step"
      using True 1(2) by (simp add: pos_imp_zdiv_nonneg_iff)
    ultimately show ?thesis
      using True 1 by (subst py_range.simps) (simp add: nat_add_distrib)
  next
    case False
    then have "(n - i + step - 1) div step \<le> (step - 1) div step"
      using 1(2) by (intro zdiv_mono1) simp_all
    moreover have "(step - 1) div step = 0"
      using 1(2) by simp
    ultimately have "(n - i + step - 1) div step \<le> 0"
      by simp
    with False show ?thesis by (subst py_range.simps) simp
  qed
qed

lemma py_range_nth:
  "0 < step \<Longrightarrow> j < length (py_range i n step) \<Longrightarrow>
     py_range i n step ! j = i + int j * step \<and> i + int j * step < n"
proof (induction i n step arbitrary: j rule: py_range.induct)
  case (1 i n step)
  from 1(3) have lt: "i < n"
    by (subst (asm) py_range.simps) (simp split: if_splits)
  show ?case
  proof (cases j)
    case 0
    with lt 1(2) show ?thesis by (subst py_range.simps) simp
  next
    case (Suc j')
    with 1(3) lt 1(2) have "j' < length (py_range (i + step) n step)"
      by (subst (asm) py_range.simps) simp
    with 1(1) lt 1(2) have "py_range (i + step) n step ! j' = i + step + int j' * step
        \<and> i + step + int j' * step < n"
      by simp
    with Suc lt 1(2) show ?thesis
      by (subst py_range.simps) (simp add: algebra_simps)
  qed
qed

text \<open>
  Claim C8, as amended. For a splitter with \<open>chunk_size > 0\<close> and
  \<open>chunk_overlap < chunk_size\<close>, \<open>split\<close> returns a finite list of
  \<open>\<lceil>len(text) / step\<rceil>\<close> windows, where \<open>step = chunk_size - chunk_overlap\<close>. Window
  \<open>i\<close> starts at the offset \<open>i * step\<close>, inside the text, and holds the next
  \<open>chunk_size\<close> characters or what is left of the text: its length is
  \<open>min(chunk_size, len(text) - i * step)\<close>. Every window that is short reaches the end
  of the text, and there may be several of them when the overlap is positive; without
  overlap only the last window can be short.
\<close>

theorem C8_windows:
  assumes "0 < chunk_size sp" and "chunk_overlap sp < chunk_size sp"
  shows "\<exists>ws. CharacterTextSplitter_split sp text = Inr ws \<and>
           int (length ws) =
             (int (length text) + (chunk_size sp - chunk_overlap sp) - 1)
               div (chunk_size sp - chunk_overlap sp) \<and>
           (\<forall>i<length ws.
              i * nat (chunk_size sp - chunk_overlap sp) < length text \<and>
              ws ! i = take (nat (chunk_size sp))
                         (drop (i * nat (chunk_size sp - chunk_overlap sp)) text) \<and>
              length (ws ! i) = min (nat (chunk_size sp))
                                  (length text - i * nat (chunk_size sp - chunk_overlap sp))) \<and>
           (chunk_overlap sp \<le> 0 \<longrightarrow>
              (\<forall>i. Suc i < length ws \<longrightarrow> length (ws ! i) = nat (chunk_size sp)))"
proof -
  define cs where "cs = chunk_size sp"
  define step where "step = chunk_size sp - chunk_overlap sp"
  define n where "n = int (length text)"
  define starts where "starts = py_range 0 n step"
  define ws where "ws = map (\<lambda>i. py_slice text i (i + cs)) starts"
  have step: "0 < step" using assms by (simp add: step_def)
  have cs: "0 < cs" using assms by (simp add: cs_def)
  have res: "CharacterTextSplitter_split sp text = Inr ws"
    using step by (simp add: CharacterTextSplitter_split_def Let_def ws_def starts_def
        step_def cs_def n_def)
  have len: "length ws = nat ((n + step - 1) div step)"
    using py_range_length [OF step, of 0 n] by (simp add: ws_def starts_def)
  have "0 \<le> (n + step - 1) div step"
    using step by (simp add: pos_imp_zdiv_nonneg_iff n_def)
  with len have len': "int (length ws) = (n + step - 1) div step"
    by simp
  have nth: "int i * step < n \<and> ws ! i = take (nat cs) (drop (i * nat step) text)"
    if "i < length ws" for i
  proof -
    from that have i: "i < length starts" by (simp add: ws_def)
    with py_range_nth [OF step, of i 0 n]
    have s: "starts ! i = int i * step" and b: "int i * step < n"
      by (simp_all add: starts_def)
    have "nat (int i * step) = i * nat step"
      using step by (simp add: nat_mult_distrib)
    moreover have "ws ! i = py_slice text (int i * step) (int i * step + cs)"
      using i s by (simp add: ws_def)
    moreover have "0 \<le> int i * step" using step by simp
    ultimately show ?thesis
      using b cs by (simp add: py_slice_window)
  qed
  have pos: "i * nat step < length text" if "i < length ws" for i
  proof -
    from nth [OF that] have "int i * step < int (length text)" by (simp add: n_def)
    moreover have "int (i * nat step) = int i * step" using step by simp
    ultimately show ?thesis by linarith
  qed
  have full: "length (ws ! i) = nat cs" if "chunk_overlap sp \<le> 0" and "Suc i < length ws" for i
  proof -
    from that(2) have "Suc i * nat step < length text" by (rule pos)
    moreover from that(1) have "nat cs \<le> nat step" by (simp add: cs_def step_def)
    ultimately have "nat cs \<le> length text - i * nat step" by simp
    moreover from that(2) have "ws ! i = take (nat cs) (drop (i * nat step) text)"
      using nth [of i] by simp
    ultimately show ?thesis by simp
  qed
  show ?thesis
    using res len' nth pos full unfolding cs_def step_def n_def
    by (intro exI [of _ ws]) (simp add: min_def)
qed

theorem C8_windows_witness:
  "(0::int) < 4 \<and> (2::int) < 4 \<and>
   (\<exists>ws. CharacterTextSplitter_split \<lparr>chunk_size = 4, chunk_overlap = 2\<rparr> ''abcde'' = Inr ws \<and>
      length ws = 3 \<and> ws ! 1 = ''cde'') \<and>
   (0::int) \<le> 0 \<and>
   (\<exists>ws. CharacterTextSplitter_split \<lparr>chunk_size = 4, chunk_overlap = 0\<rparr> ''abcdefghij'' = Inr ws \<and>
      length ws = 3 \<and> length (ws ! 0) = 4 \<and> length (ws ! 1) = 4)"
proof -
  from C8_windows [of "\<lparr>chunk_size = 4, chunk_overlap = 2\<rparr>" "''abcde''"]
  obtain ws where r: "CharacterTextSplitter_split \<lparr>chunk_size = 4, chunk_overlap = 2\<rparr> ''abcde'' = Inr ws"
    and l: "int (length ws) = 3"
    and n: "\<forall>i<length ws. ws ! i = take 4 (drop (i * 2) ''abcde'')"
    by auto
  from l have l3: "length ws = 3" by simp
  with n have "ws ! 1 = ''cde''" by simp
  with r l3 have 1: "\<exists>ws. CharacterTextSplitter_split \<lparr>chunk_size = 4, chunk_overlap = 2\<rparr> ''abcde'' = Inr ws \<and>
      length ws = 3 \<and> ws ! 1 = ''cde''"
    by simp
  from C8_windows [of "\<lparr>chunk_size = 4, chunk_overlap = 0\<rparr>" "''abcdefghij''"]
  obtain vs where r': "CharacterTextSplitter_split \<lparr>chunk_size = 4, chunk_overlap = 0\<rparr> ''abcdefghij'' = Inr vs"
    and l': "int (length vs) = 3"
    and f: "\<forall>i. Suc i < length vs \<longrightarrow> length (vs ! i) = 4"
    by auto
  from l' have l3': "length vs = 3" by simp
  with f have "length (vs ! 0) = 4" "length (vs ! 1) = 4" by simp_all
  with r' l3' have 2: "\<exists>ws. CharacterTextSplitter_split \<lparr>chunk_size = 4, chunk_overlap = 0\<rparr> ''abcdefghij'' = Inr ws \<and>
      length ws = 3 \<and> length (ws ! 0) = 4 \<and> length (ws ! 1) = 4"
    by simp
  from 1 2 show ?thesis by simp
qed

text \<open>
  Claim C8 as stated lets only the final window be shorter than \<open>chunk_size\<close>. With
  \<open>chunk_size = 4\<close> and \<open>chunk_overlap = 2\<close>, a configuration the constructor accepts,
  the text \<open>abcde\<close> gives three windows, and the second one, which is not the final
  one, has three characters.
\<close>

theorem C8_short_windows_counterexample:
  "CharacterTextSplitter_init 4 2 = Inr \<lparr>chunk_size = 4, chunk_overlap = 2\<rparr> \<and>
   CharacterTextSplitter_split \<lparr>chunk_size = 4, chunk_overlap = 2\<rparr> ''abcde''
     = Inr [''abcd'', ''cde'', ''e''] \<and>
   length ''cde'' < 4"
  by (simp add: CharacterTextSplitter_init_def CharacterTextSplitter_split_def py_range.simps
      py_slice_def slice_bound_def)


section \<open>The recursive splitter: scenarios\<close>

lemmas split_eval =
  RecursiveTextSplitter_split_def RecursiveTextSplitter_init_def default_separators_def
  split_text_with_separator_def max_split_len_def merge_splits_def NL_def Let_def
  str_split.simps(2)

text \<open>
  The sub-splitter that \<open>split\<close> builds for an oversized piece: with the sizes of a
  constructed splitter and a non-empty rest of the separator list, the constructor
  succeeds and keeps the rest of the list, as \<open>split_with\<close> assumes.
\<close>

lemma subsplitter_init:
  "co < cs \<Longrightarrow> rest \<noteq> [] \<Longrightarrow>
     RecursiveTextSplitter_init cs co (Some rest)
       = Inr \<lparr>chunk_size = cs, chunk_overlap = co, separators = rest\<rparr>"
  by (simp add: RecursiveTextSplitter_init_def)

text \<open>
  Claim C5. With \<open>chunk_size = 6\<close>, \<open>chunk_overlap = 0\<close> and the default separators, the
  text \<open>AAAA\<close>, blank line, \<open>BBBB\<close>, blank line, \<open>CCCC\<close> is split into exactly the
  chunks \<open>AAAA\<close>, \<open>BBBB\<close>, \<open>CCCC\<close>. The cut is made by the first separator, the
  paragraph break: its pieces are all within the chunk size, so they are merged at
  that level and no other separator is tried.
\<close>

theorem C5_paragraph_scenario:
  "RecursiveTextSplitter_init 6 0 None
     = Inr \<lparr>chunk_size = 6, chunk_overlap = 0, separators = default_separators\<rparr> \<and>
   RecursiveTextSplitter_split
       \<lparr>chunk_size = 6, chunk_overlap = 0, separators = default_separators\<rparr>
       (''AAAA'' @ [NL, NL] @ ''BBBB'' @ [NL, NL] @ ''CCCC'')
     = [''AAAA'', ''BBBB'', ''CCCC''] \<and>
   split_text_with_separator (''AAAA'' @ [NL, NL] @ ''BBBB'' @ [NL, NL] @ ''CCCC'') [NL, NL]
     = [''AAAA'', ''BBBB'', ''CCCC''] \<and>
   max_split_len [''AAAA'', ''BBBB'', ''CCCC''] \<le> 6 \<and>
   merge_splits 6 0 [''AAAA'', ''BBBB'', ''CCCC''] [NL, NL] = [''AAAA'', ''BBBB'', ''CCCC'']"
  by (simp add: split_eval)

text \<open>
  Claim C10. For every configuration with \<open>0 \<le> chunk_overlap < chunk_size\<close> and the
  default separators, splitting the empty text gives the list of one empty string, and
  the result comes from the first separator: for every input whose pieces between
  paragraph breaks are all within the chunk size, \<open>split\<close> returns the merge of these
  pieces with the paragraph break and tries no other separator; the empty text is such
  an input, its only piece being the empty string, and the merge of that piece is the
  result.
\<close>

theorem C10_empty_text:
  assumes "0 \<le> co" and "co < cs"
  shows "\<exists>sp. RecursiveTextSplitter_init cs co None = Inr sp \<and>
           separators sp = default_separators \<and>
           (\<forall>inp. max_split_len (split_text_with_separator inp [NL, NL]) \<le> cs \<longrightarrow>
                  RecursiveTextSplitter_split sp inp
                    = merge_splits cs co (split_text_with_separator inp [NL, NL]) [NL, NL]) \<and>
           split_text_with_separator [] [NL, NL] = [[]] \<and>
           max_split_len (split_text_with_separator [] [NL, NL]) \<le> cs \<and>
           merge_splits cs co (split_text_with_separator [] [NL, NL]) [NL, NL] = [[]] \<and>
           RecursiveTextSplitter_split sp [] = [[]]"
proof -
  define sp where "sp = \<lparr>chunk_size = cs, chunk_overlap = co, separators = default_separators\<rparr>"
  have i: "RecursiveTextSplitter_init cs co None = Inr sp"
    using assms by (simp add: RecursiveTextSplitter_init_def sp_def)
  have s: "separators sp = default_separators"
    by (simp add: sp_def)
  have first: "RecursiveTextSplitter_split sp inp
      = merge_splits cs co (split_text_with_separator inp [NL, NL]) [NL, NL]"
    if "max_split_len (split_text_with_separator inp [NL, NL]) \<le> cs" for inp
    using that
    by (simp add: RecursiveTextSplitter_split_def sp_def default_separators_def Let_def)
  have p: "split_text_with_separator [] [NL, NL] = [[]]"
    by (simp add: split_text_with_separator_def)
  have m: "max_split_len (split_text_with_separator [] [NL, NL]) \<le> cs"
    using assms by (simp add: p max_split_len_def)
  have g: "merge_splits cs co (split_text_with_separator [] [NL, NL]) [NL, NL] = [[]]"
    by (simp add: p merge_splits_def Let_def)
  from first [OF m] g have e: "RecursiveTextSplitter_split sp [] = [[]]"
    by simp
  from i s first p m g e show ?thesis by blast
qed

theorem C10_empty_text_witness:
  "(0::int) \<le> 200 \<and> (200::int) < 1000 \<and>
   (\<exists>sp. RecursiveTextSplitter_init 1000 200 None = Inr sp \<and>
         max_split_len (split_text_with_separator [] [NL, NL]) \<le> 1000 \<and>
         RecursiveTextSplitter_split sp []
           = merge_splits 1000 200 (split_text_with_separator [] [NL, NL]) [NL, NL] \<and>
         RecursiveTextSplitter_split sp [] = [[]])"
proof -
  have h1: "(0::int) \<le> 200" and h2: "(200::int) < 1000" by simp_all
  from C10_empty_text [OF h1 h2] obtain sp where
    "RecursiveTextSplitter_init 1000 200 None = Inr sp"
    and f: "\<forall>inp. max_split_len (split_text_with_separator inp [NL, NL]) \<le> 1000 \<longrightarrow>
                  RecursiveTextSplitter_split sp inp
                    = merge_splits 1000 200 (split_text_with_separator inp [NL, NL]) [NL, NL]"
    and m: "max_split_len (split_text_with_separator [] [NL, NL]) \<le> 1000"
    and "RecursiveTextSplitter_split sp [] = [[]]"
    by blast
  moreover from f m have "RecursiveTextSplitter_split sp []
           = merge_splits 1000 200 (split_text_with_separator [] [NL, NL]) [NL, NL]"
    by blast
  ultimately show ?thesis using h1 h2 by blast
qed

text \<open>
  Claim C1 says that no chunk is longer than \<open>chunk_size\<close>. The merge step closes the
  running chunk when the next piece would not fit, seeds the next chunk with the pieces
  kept for the overlap, and then adds the piece without checking that seed and piece fit
  together. With \<open>chunk_size = 5\<close>, \<open>chunk_overlap = 4\<close> and the default separators, the
  text \<open>ab\<close>, blank line, \<open>cd\<close> gives a second chunk of six characters.
\<close>

theorem C1_chunk_too_long:
  "RecursiveTextSplitter_init 5 4 None
     = Inr \<lparr>chunk_size = 5, chunk_overlap = 4, separators = default_separators\<rparr> \<and>
   RecursiveTextSplitter_split
       \<lparr>chunk_size = 5, chunk_overlap = 4, separators = default_separators\<rparr>
       (''ab'' @ [NL, NL] @ ''cd'')
     = [''ab'', ''ab'' @ [NL, NL] @ ''cd''] \<and>
   int (length (''ab'' @ [NL, NL] @ ''cd'')) > 5"
  by (simp add: split_eval)


section \<open>The recursive splitter: coverage of the input\<close>

subsection \<open>Joining and splitting\<close>

lemma str_join_snoc:
  "str_join sep (ps @ [p]) = (if ps = [] then p else str_join sep ps @ sep @ p)"
  by (induction sep ps rule: str_join.induct) auto

lemma str_split_not_Nil: "str_split sep xs \<noteq> []"
proof (cases xs)
  case Nil
  then show ?thesis by simp
next
  case (Cons c cs)
  then show ?thesis
    by (simp add: str_split.simps(2) split: list.splits)
qed

lemma str_join_Cons_Cons: "str_join sep ((c # p) # ps) = c # str_join sep (p # ps)"
  by (cases ps) simp_all

lemma str_join_Nil_Cons: "ps \<noteq> [] \<Longrightarrow> str_join sep ([] # ps) = sep @ str_join sep ps"
  by (cases ps) simp_all

lemma str_join_str_split: "str_join sep (str_split sep xs) = xs"
proof (induction sep xs rule: str_split.induct)
  case (1 sep)
  show ?case by simp
next
  case (2 sep c cs)
  show ?case
  proof (cases "sep \<noteq> [] \<and> prefix sep (c # cs)")
    case True
    define d where "d = drop (length sep) (c # cs)"
    from True have whole: "sep @ d = c # cs"
      unfolding d_def by (metis append_eq_conv_conj prefixE)
    from True have "str_split sep (c # cs) = [] # str_split sep d"
      unfolding d_def by (subst str_split.simps(2)) simp
    then have "str_join sep (str_split sep (c # cs)) = sep @ str_join sep (str_split sep d)"
      by (simp add: str_join_Nil_Cons str_split_not_Nil)
    also from 2(1) [OF True] have "str_join sep (str_split sep d) = d"
      unfolding d_def .
    finally show ?thesis by (simp only: whole)
  next
    case False
    obtain p ps where s: "str_split sep cs = p # ps"
      using str_split_not_Nil [of sep cs] by (cases "str_split sep cs") auto
    from False have "str_split sep (c # cs) = (c # p) # ps"
      using s by (subst str_split.simps(2)) auto
    then have "str_join sep (str_split sep (c # cs)) = c # str_join sep (p # ps)"
      by (simp only: str_join_Cons_Cons)
    also from 2(2) [OF False] s have "str_join sep (p # ps) = cs"
      by simp
    finally show ?thesis .
  qed
qed

lemma concat_chars: "concat (map (\<lambda>c. [c]) xs) = xs"
  by (induction xs) auto

subsection \<open>The merge step loses no piece\<close>





subsection \<open>Texts with separators taken out\<close>

lemma cut_at_refl: "cut_at S xs xs"
  by (induction xs) (auto intro: cut_at.intros)


lemma cut_at_sep: "s \<in> S \<Longrightarrow> cut_at S (s @ xs) xs"
  by (rule cut_Drop) (simp_all add: cut_at_refl)








subsection \<open>The chunks are runs of pieces\<close>









text \<open>The pieces of a split, joined with the separator, are the input.\<close>

lemma str_join_split_text: "str_join sep (split_text_with_separator inp sep) = inp"
proof (cases "sep = []")
  case True
  have "str_join [] (map (\<lambda>c. [c]) xs) = xs" for xs :: string
    by (induction xs rule: induct_list012) simp_all
  with True show ?thesis by (simp add: split_text_with_separator_def)
next
  case False
  then show ?thesis by (simp add: split_text_with_separator_def str_join_str_split)
qed

text \<open>
  What \<open>built\<close> says of an input whose pieces are all within the chunk size: no piece is
  replaced, so the runs are runs of the pieces of the input, and the new pieces of the
  chunks, joined with the separator, are the input. Such an input that comes back as a
  single chunk comes back unchanged.
\<close>

inductive_cases built_levelE: "built cs (sep # rest) inp chunks"

lemma built_pieces_fit:
  assumes "built cs (sep # rest) inp chunks"
    and "\<forall>p\<in>set (split_text_with_separator inp sep). int (length p) \<le> cs"
  shows "\<exists>kws. chunks = map (\<lambda>(k, w). str_join sep w) kws \<and> overlapping [] kws \<and>
           new_pieces kws = split_text_with_separator inp sep \<and>
           str_join sep (new_pieces kws) = inp"
proof -
  from assms(1) obtain gs kws where
    g: "list_all2 (\<lambda>p g. g = [p] \<or> int (length p) > cs \<and> built cs rest p g)
          (split_text_with_separator inp sep) gs"
    and o: "overlapping [] kws" and n: "new_pieces kws = concat gs"
    and c: "chunks = map (\<lambda>(k, w). str_join sep w) kws"
    by (rule built_levelE)
  from g have "list_all2 (\<lambda>p g. g = [p]) (split_text_with_separator inp sep) gs"
    by (rule list.rel_mono_strong) (use assms(2) in auto)
  then have "gs = map (\<lambda>p. [p]) (split_text_with_separator inp sep)"
    by (induction rule: list_all2_induct) simp_all
  then have "concat gs = split_text_with_separator inp sep"
    by (simp add: concat_chars)
  with o n c have "chunks = map (\<lambda>(k, w). str_join sep w) kws \<and> overlapping [] kws \<and>
           new_pieces kws = split_text_with_separator inp sep \<and>
           str_join sep (new_pieces kws) = inp"
    by (simp add: str_join_split_text)
  then show ?thesis by (rule exI)
qed

lemma built_single_chunk:
  assumes "built cs (sep # rest) inp [c]"
    and "\<forall>p\<in>set (split_text_with_separator inp sep). int (length p) \<le> cs"
  shows "c = inp"
proof -
  from built_pieces_fit [OF assms] obtain kws where
    c: "[c] = map (\<lambda>(k, w). str_join sep w) kws" and o: "overlapping [] kws"
    and j: "str_join sep (new_pieces kws) = inp"
    by (elim exE conjE)
  from c obtain k w where kws: "kws = [(k, w)]" and cw: "c = str_join sep w"
    by (cases kws) auto
  from o kws have "k = 0" by (cases "k = 0") auto
  with j kws cw show ?thesis by (simp add: new_pieces_def)
qed




text \<open>
  The relation \<open>built\<close> leaves no room for dropping a separator inside a chunk: a text
  of two lines that fits in a chunk is not built into its letters alone.
\<close>

lemma built_keeps_separators:
  "\<not> built 1000 default_separators (''to be or'' @ [NL] @ ''not to be'') [''tobeornottobe'']"
proof
  assume b: "built 1000 default_separators (''to be or'' @ [NL] @ ''not to be'') [''tobeornottobe'']"
  have "\<forall>p\<in>set (split_text_with_separator (''to be or'' @ [NL] @ ''not to be'') [NL, NL]).
          int (length p) \<le> 1000"
    by (simp add: split_text_with_separator_def str_split.simps(2) NL_def)
  with b have "''tobeornottobe'' = ''to be or'' @ [NL] @ ''not to be''"
    unfolding default_separators_def by (rule built_single_chunk)
  then show False by simp
qed


section \<open>The recursive splitter: chunk sizes without overlap\<close>

text \<open>
  Where the overlap seed is empty the size bound of claim C1 holds: with
  \<open>chunk_overlap = 0\<close>, a chunk size of at least one and the default separators, no
  chunk is longer than \<open>chunk_size\<close>. Oversized chunks come from the overlap seed
  alone.
\<close>

lemma fold_max_le:
  "fold (\<lambda>t m. max m (int (length t))) ss a \<le> cs
     \<longleftrightarrow> a \<le> cs \<and> (\<forall>s\<in>set ss. int (length s) \<le> cs)"
  by (induction ss arbitrary: a) auto

lemma max_split_len_le:
  "0 \<le> cs \<Longrightarrow> max_split_len splits \<le> cs \<longleftrightarrow> (\<forall>s\<in>set splits. int (length s) \<le> cs)"
  by (cases splits) (simp_all add: max_split_len_def fold_max_le)

lemma overlap_loop_none:
  assumes "cur \<noteq> []" and "sep \<noteq> [] \<or> (\<forall>s\<in>set cur. s \<noteq> [])"
  shows "overlap_loop 0 sep (rev cur) 0 [] = []"
proof -
  from assms(1) obtain item items where r: "rev cur = item # items"
    by (cases "rev cur") auto
  then have "item \<in> set cur"
    by (metis list.set_intros(1) set_rev)
  with assms(2) have "item \<noteq> [] \<or> sep \<noteq> []"
    by auto
  then have "0 < length item + length sep"
    by auto
  then have "0 < int (length item) + int (length sep)"
    by linarith
  with r show ?thesis by (simp add: Let_def)
qed

lemma merge_step_inv:
  assumes inv: "merge_inv cs sep (chunks, cur, cl)"
    and len: "int (length split) \<le> cs"
    and ne: "sep \<noteq> [] \<or> split \<noteq> []"
  shows "merge_inv cs sep (merge_step cs 0 sep split (chunks, cur, cl))"
proof (cases "cl + int (length split) + int (length sep) > cs \<and> cur \<noteq> []")
  case True
  from inv True have "sep \<noteq> [] \<or> (\<forall>s\<in>set cur. s \<noteq> [])"
    by (auto simp: merge_inv_def)
  with True have o: "overlap_loop 0 sep (rev cur) 0 [] = []"
    by (intro overlap_loop_none) simp_all
  from True o have "merge_step cs 0 sep split (chunks, cur, cl)
      = (chunks @ [str_join sep cur], [split], int (length split) + int (length sep))"
    by (simp add: Let_def)
  with inv True len ne show ?thesis
    by (auto simp: merge_inv_def)
next
  case False
  then have m: "merge_step cs 0 sep split (chunks, cur, cl)
      = (chunks, cur @ [split], cl + int (length split) + int (length sep))"
    by (auto simp: Let_def)
  show ?thesis
  proof (cases "cur = []")
    case True
    with inv len ne show ?thesis
      unfolding m by (auto simp: merge_inv_def)
  next
    case c: False
    with False have "cl + int (length split) + int (length sep) \<le> cs" by simp
    with inv len ne c show ?thesis
      unfolding m by (auto simp: merge_inv_def str_join_snoc)
  qed
qed

lemma merge_fold_inv:
  assumes "merge_inv cs sep st"
    and "\<forall>s\<in>set splits. int (length s) \<le> cs"
    and "sep \<noteq> [] \<or> (\<forall>s\<in>set splits. s \<noteq> [])"
  shows "merge_inv cs sep (fold (merge_step cs 0 sep) splits st)"
  using assms
proof (induction splits arbitrary: st)
  case Nil
  then show ?case by simp
next
  case (Cons s splits)
  obtain chunks cur cl where st: "st = (chunks, cur, cl)" by (cases st) auto
  from Cons.prems have "merge_inv cs sep (merge_step cs 0 sep s st)"
    unfolding st by (intro merge_step_inv) auto
  moreover from Cons.prems have "\<forall>s\<in>set splits. int (length s) \<le> cs"
    and "sep \<noteq> [] \<or> (\<forall>s\<in>set splits. s \<noteq> [])"
    by auto
  ultimately have "merge_inv cs sep (fold (merge_step cs 0 sep) splits (merge_step cs 0 sep s st))"
    by (rule Cons.IH)
  then show ?case by simp
qed

lemma merge_splits_bound:
  assumes "\<forall>s\<in>set splits. int (length s) \<le> cs"
    and "sep \<noteq> [] \<or> (\<forall>s\<in>set splits. s \<noteq> [])"
    and "c \<in> set (merge_splits cs 0 splits sep)"
  shows "int (length c) \<le> cs"
proof -
  have "merge_inv cs sep ([], [], 0)"
    by (simp add: merge_inv_def)
  then have i: "merge_inv cs sep (fold (merge_step cs 0 sep) splits ([], [], 0))"
    using assms(1,2) by (rule merge_fold_inv)
  obtain chunks cur cl where f: "fold (merge_step cs 0 sep) splits ([], [], 0) = (chunks, cur, cl)"
    by (metis prod_cases3)
  from i assms(3) show ?thesis
    unfolding f merge_splits_def by (auto simp: merge_inv_def split: if_splits)
qed

lemma split_with_bound:
  assumes "1 \<le> cs" and "seps \<noteq> []" and "last seps = []" and "[] \<notin> set (butlast seps)"
    and "c \<in> set (split_with cs 0 seps inp)"
  shows "int (length c) \<le> cs"
  using assms(2-)
proof (induction seps arbitrary: inp c)
  case Nil
  then show ?case by simp
next
  case (Cons sep rest)
  define splits where "splits = split_text_with_separator inp sep"
  show ?case
  proof (cases "rest = []")
    case True
    with Cons.prems(2) have sep: "sep = []" by simp
    then have sp: "splits = map (\<lambda>c. [c]) inp"
      by (simp add: splits_def split_text_with_separator_def)
    then have small: "\<forall>s\<in>set splits. int (length s) \<le> cs" and ne: "\<forall>s\<in>set splits. s \<noteq> []"
      using assms(1) by auto
    from small assms(1) have "max_split_len splits \<le> cs"
      by (simp add: max_split_len_le)
    with Cons.prems(4) have "c \<in> set (merge_splits cs 0 splits sep)"
      by (simp add: splits_def Let_def)
    with small ne show ?thesis
      by (intro merge_splits_bound [of splits cs sep c]) simp_all
  next
    case False
    with Cons.prems(3) have sep: "sep \<noteq> []" by auto
    from False Cons.prems(2,3) have rest: "rest \<noteq> []" "last rest = []" "[] \<notin> set (butlast rest)"
      by auto
    show ?thesis
    proof (cases "max_split_len splits \<le> cs")
      case True
      with assms(1) have small: "\<forall>s\<in>set splits. int (length s) \<le> cs"
        by (simp add: max_split_len_le)
      from True Cons.prems(4) have "c \<in> set (merge_splits cs 0 splits sep)"
        by (simp add: splits_def Let_def)
      with small sep show ?thesis
        by (intro merge_splits_bound [of splits cs sep c]) simp_all
    next
      case big: False
      define g where "g = (\<lambda>split. if int (length split) \<le> cs then [split]
                                    else split_with cs 0 rest split)"
      from big False Cons.prems(4) have "c \<in> set (merge_splits cs 0 (concat (map g splits)) sep)"
        unfolding splits_def g_def by (simp add: Let_def)
      moreover have "\<forall>s\<in>set (concat (map g splits)). int (length s) \<le> cs"
      proof
        fix s assume "s \<in> set (concat (map g splits))"
        then obtain p where "s \<in> set (g p)" by auto
        then show "int (length s) \<le> cs"
          using Cons.IH [OF rest, of s p] by (auto simp: g_def split: if_splits)
      qed
      ultimately show ?thesis
        using sep by (intro merge_splits_bound [of "concat (map g splits)" cs sep c]) simp_all
    qed
  qed
qed

lemma split_bound_no_overlap:
  assumes "1 \<le> cs"
    and "c \<in> set (RecursiveTextSplitter_split
                    \<lparr>chunk_size = cs, chunk_overlap = 0, separators = default_separators\<rparr> inp)"
  shows "int (length c) \<le> cs"
proof -
  from assms(2) have "c \<in> set (split_with cs 0 default_separators inp)"
    by (simp add: RecursiveTextSplitter_split_def)
  then show ?thesis
    by (intro split_with_bound [OF assms(1), of default_separators c inp])
       (simp_all add: default_separators_def)
qed


end
